theory Spec2Isabelle
  imports Main
begin

section \<open>The make-style command line of \<^verbatim>\<open>prefect.runtimes.make_cli\<close>\<close>

text \<open>
  The module registers user functions as tasks (\<^verbatim>\<open>MakeCLI.task\<close>), records for each
  task a list of upstream task names, and its \<^verbatim>\<open>run\<close> command walks those lists to
  build a flow of the workflow engine, which it finally runs.

  The embedding follows the Python text:
  \<^item> a task object (a \<^verbatim>\<open>FunctionTask\<close>) and a list object are known by their identity,
    a natural number handed out by an allocation counter;
  \<^item> the two dictionaries are association lists in insertion order, as a Python
    dictionary iterates;
  \<^item> the contents of the list objects live in a store (a dictionary from the identity
    of a list to its elements), since \<^verbatim>\<open>task\<close> keeps the
    caller's \<^verbatim>\<open>depends\<close> list itself (no copy) and appends to it; the list
    \<^verbatim>\<open>task_order\<close> is one of these objects, so that \<^verbatim>\<open>depends\<close> may be that very list;
  \<^item> the flow is the engine's object: what the module does to it is the sequence of
    the calls it makes, and a \<^verbatim>\<open>KeyError\<close> is a value.
\<close>

subsection \<open>Python dictionaries and errors\<close>

type_synonym name = string
type_synonym task = nat
type_synonym list_ref = nat

datatype py_error = KeyError name

text \<open>\<^verbatim>\<open>d[k] = v\<close>: an existing key keeps its place, a new key goes last.\<close>

fun dict_set :: "('k \<times> 'v) list \<Rightarrow> 'k \<Rightarrow> 'v \<Rightarrow> ('k \<times> 'v) list" where
  "dict_set [] k v = [(k, v)]"
| "dict_set ((k', v') # kvs) k v =
     (if k' = k then (k, v) # kvs else (k', v') # dict_set kvs k v)"

text \<open>\<^verbatim>\<open>d.get(k)\<close>, \<^verbatim>\<open>d.keys()\<close> and \<^verbatim>\<open>d.values()\<close>.\<close>

definition dict_get :: "('k \<times> 'v) list \<Rightarrow> 'k \<Rightarrow> 'v option" where
  "dict_get d k = map_of d k"

definition dict_keys :: "('k \<times> 'v) list \<Rightarrow> 'k list" where
  "dict_keys d = map fst d"

definition dict_values :: "('k \<times> 'v) list \<Rightarrow> 'v list" where
  "dict_values d = map snd d"

subsection \<open>The registry: \<^verbatim>\<open>MakeCLI\<close>\<close>

text \<open>
  The fields of \<^verbatim>\<open>MakeCLI.__init__\<close>, then the store of the list objects and the
  allocation counter. \<^verbatim>\<open>task_order\<close> holds the identity of its list object, whose elements
  are in the store as those of every other list. The field \<^verbatim>\<open>flow\<close> is the engine's
  object and is represented by the calls made on it (see \<open>call\<close> below).
\<close>

record make_cli =
  dependencies :: "(task \<times> list_ref) list"
  tasks :: "(name \<times> task) list"
  task_order :: list_ref
  implied_order :: bool
  lists :: "(list_ref \<times> name list) list"
  next_obj :: nat

definition MakeCLI_init :: "bool \<Rightarrow> make_cli" where
  "MakeCLI_init implied =
     \<lparr>dependencies = [], tasks = [], task_order = 0, implied_order = implied,
      lists = [(0, [])], next_obj = 1\<rparr>"

text \<open>
  The elements of the list object \<open>r\<close>, and \<^verbatim>\<open>r.append(x)\<close>. An identity that nothing
  was allocated for has no elements.
\<close>

definition list_at :: "make_cli \<Rightarrow> list_ref \<Rightarrow> name list" where
  "list_at obj r = (case dict_get (lists obj) r of None \<Rightarrow> [] | Some ns \<Rightarrow> ns)"

definition list_append :: "list_ref \<Rightarrow> name \<Rightarrow> make_cli \<Rightarrow> make_cli" where
  "list_append r x obj = obj\<lparr>lists := dict_set (lists obj) r (list_at obj r @ [x])\<rparr>"

text \<open>A list display evaluated by the caller, such as \<^verbatim>\<open>['task2', 'task3']\<close>.\<close>

definition new_list :: "name list \<Rightarrow> make_cli \<Rightarrow> list_ref \<times> make_cli" where
  "new_list ns obj =
     (next_obj obj,
      obj\<lparr>lists := dict_set (lists obj) (next_obj obj) ns, next_obj := Suc (next_obj obj)\<rparr>)"

text \<open>
  The argument \<^verbatim>\<open>depends\<close>: a list object, or anything else (\<^verbatim>\<open>None\<close> by default),
  as \<^verbatim>\<open>isinstance(depends, list)\<close> tells them apart.
\<close>

datatype depends_arg = Depends_list list_ref | Depends_other

text \<open>
  \<^verbatim>\<open>MakeCLI.task(fn, depends)\<close>, with \<open>fn_name\<close> for \<^verbatim>\<open>fn.__name__\<close>. It returns the new
  task object and the registry after the call.
\<close>

definition task :: "name \<Rightarrow> depends_arg \<Rightarrow> make_cli \<Rightarrow> task \<times> make_cli" where
  "task fn_name depends obj =
     (let t = next_obj obj;
          obj1 = obj\<lparr>next_obj := Suc t\<rparr>;
          (r, obj2) = (case depends of
                         Depends_list r \<Rightarrow> (r, obj1)
                       | Depends_other \<Rightarrow> new_list [] obj1);
          obj3 = obj2\<lparr>dependencies := dict_set (dependencies obj2) t r\<rparr>;
          obj4 = (if implied_order obj3 \<and> length (list_at obj3 (task_order obj3)) > 0
                  then list_append r (last (list_at obj3 (task_order obj3))) obj3
                  else obj3);
          obj5 = obj4\<lparr>tasks := dict_set (tasks obj4) fn_name t\<rparr>;
          obj6 = list_append (task_order obj5) fn_name obj5
      in (t, obj6))"

subsection \<open>The calls on the flow\<close>

text \<open>
  \<^verbatim>\<open>flow.set_dependencies(t, upstream_tasks=ds)\<close>, \<^verbatim>\<open>flow.add_task(t)\<close> and
  \<^verbatim>\<open>flow.run()\<close>. An outcome is the exception raised, if any, with the calls made up to
  that point in the order they were made.
\<close>

datatype call = Set_dependencies task "task list" | Add_task task | Flow_run

type_synonym outcome = "py_error option \<times> call list"

fun and_then :: "outcome \<Rightarrow> outcome \<Rightarrow> outcome" where
  "and_then (Some e, cs) _ = (Some e, cs)"
| "and_then (None, cs) (r, cs') = (r, cs @ cs')"

subsection \<open>The command \<^verbatim>\<open>run\<close>\<close>

text \<open>\<^verbatim>\<open>obj.dependencies.get(current_t)\<close>: \<^verbatim>\<open>None\<close> or the contents of the list found.\<close>

definition deps_get :: "make_cli \<Rightarrow> task \<Rightarrow> name list option" where
  "deps_get obj t = map_option (list_at obj) (dict_get (dependencies obj) t)"

text \<open>The truth value Python gives \<^verbatim>\<open>deps\<close>, and its elements.\<close>

fun truthy :: "name list option \<Rightarrow> bool" where
  "truthy None = False"
| "truthy (Some ns) = (ns \<noteq> [])"

fun elements :: "name list option \<Rightarrow> name list" where
  "elements None = []"
| "elements (Some ns) = ns"

text \<open>\<^verbatim>\<open>[obj.tasks[t_n] for t_n in deps]\<close>: the first missing name raises.\<close>

fun dep_objs :: "make_cli \<Rightarrow> name list \<Rightarrow> py_error + task list" where
  "dep_objs obj [] = Inr []"
| "dep_objs obj (t_n # ns) =
     (case dict_get (tasks obj) t_n of
        None \<Rightarrow> Inl (KeyError t_n)
      | Some t \<Rightarrow> (case dep_objs obj ns of
                    Inl e \<Rightarrow> Inl e
                  | Inr ts \<Rightarrow> Inr (t # ts)))"

text \<open>
  The \<^verbatim>\<open>while to_visit:\<close> loop. \<open>to_visit\<close> is the Python list: \<^verbatim>\<open>pop()\<close> takes its
  last element and \<^verbatim>\<open>extend\<close> appends. \<open>fetched\<close> is \<^verbatim>\<open>alredy_fetched_deps_for\<close>.
\<close>

function visit :: "make_cli \<Rightarrow> bool \<Rightarrow> task list \<Rightarrow> task set \<Rightarrow> outcome" where
  "visit obj no_dependencies to_visit fetched =
     (if to_visit = [] then (None, [])
      else
        let current_t = last to_visit;
            rest = butlast to_visit;
            deps = deps_get obj current_t
        in if truthy deps \<and> \<not> no_dependencies then
             if current_t \<in> fetched then visit obj no_dependencies rest fetched
             else (case dep_objs obj (elements deps) of
                     Inl e \<Rightarrow> (Some e, [])
                   | Inr ds \<Rightarrow>
                       and_then (None, [Set_dependencies current_t ds])
                         (visit obj no_dependencies (rest @ ds) (insert current_t fetched)))
           else and_then (None, [Add_task current_t])
                  (visit obj no_dependencies rest fetched))"
  by pat_completeness auto

termination
proof (relation "inv_image (less_than <*lex*> less_than)
    (\<lambda>(obj, nd, to_visit, fetched).
       (card (set (dict_keys (dependencies obj)) - fetched), length to_visit))",
    goal_cases)
  case 1
  show ?case by (intro wf_inv_image wf_lex_prod wf_less_than)
next
  case (2 obj nd to_visit fetched)
  then show ?case by simp
next
  case (3 obj nd to_visit fetched current_t rest deps ds)
  from 3 have "truthy (deps_get obj current_t)" by simp
  then have "current_t \<in> set (dict_keys (dependencies obj))"
    by (cases "map_of (dependencies obj) current_t")
       (auto simp: deps_get_def dict_get_def dict_keys_def dest: map_of_SomeD
          intro: rev_image_eqI)
  with 3 have "current_t \<in> set (dict_keys (dependencies obj)) - fetched"
    by simp
  then have "card (set (dict_keys (dependencies obj)) - insert current_t fetched)
      < card (set (dict_keys (dependencies obj)) - fetched)"
    by (intro psubset_card_mono) auto
  then show ?case by simp
next
  case (4 obj nd to_visit fetched)
  then show ?case by simp
qed

declare visit.simps [simp del]

text \<open>
  The \<^verbatim>\<open>for task_name, t in obj.tasks.items()\<close> loop over the remaining items, with
  \<open>requested\<close> the (possibly replaced) argument \<^verbatim>\<open>tasks\<close>.
\<close>

fun run_items :: "make_cli \<Rightarrow> name list \<Rightarrow> bool \<Rightarrow> (name \<times> task) list \<Rightarrow> outcome" where
  "run_items obj requested no_dependencies [] = (None, [])"
| "run_items obj requested no_dependencies ((task_name, t) # items) =
     (if task_name \<in> set requested
      then and_then (visit obj no_dependencies [t] {})
             (run_items obj requested no_dependencies items)
      else run_items obj requested no_dependencies items)"

text \<open>\<^verbatim>\<open>run(obj, tasks, no_dependencies)\<close>; the argument \<^verbatim>\<open>tasks\<close> is \<open>requested\<close> here.\<close>

definition effective :: "make_cli \<Rightarrow> name list \<Rightarrow> name list" where
  "effective obj requested =
     (if length requested = 0 then dict_keys (tasks obj) else requested)"

definition run :: "make_cli \<Rightarrow> name list \<Rightarrow> bool \<Rightarrow> outcome" where
  "run obj requested no_dependencies =
     and_then (run_items obj (effective obj requested) no_dependencies (tasks obj))
       (None, [Flow_run])"

subsection \<open>Reading an outcome\<close>

text \<open>
  The registered tasks a command line asks for, in the order of the dictionary: those
  whose name is among the arguments, and all of them when there is no argument.
\<close>

definition selected :: "make_cli \<Rightarrow> name list \<Rightarrow> task list" where
  "selected obj requested =
     map snd (filter (\<lambda>(task_name, t). requested = [] \<or> task_name \<in> set requested) (tasks obj))"

text \<open>
  The tasks given to \<^verbatim>\<open>set_dependencies\<close> (expanded) and to \<^verbatim>\<open>add_task\<close> (standalone),
  one entry for each call, the edges declared (upstream task first), and the tasks a call
  mentions.
\<close>

fun expanded :: "call list \<Rightarrow> task list" where
  "expanded [] = []"
| "expanded (Set_dependencies t ds # cs) = t # expanded cs"
| "expanded (c # cs) = expanded cs"

fun standalone :: "call list \<Rightarrow> task list" where
  "standalone [] = []"
| "standalone (Add_task t # cs) = t # standalone cs"
| "standalone (c # cs) = standalone cs"

fun call_edges :: "call \<Rightarrow> (task \<times> task) list" where
  "call_edges (Set_dependencies t ds) = map (\<lambda>u. (u, t)) ds"
| "call_edges c = []"

definition edges :: "call list \<Rightarrow> (task \<times> task) set" where
  "edges cs = set (concat (map call_edges cs))"

fun call_tasks :: "call \<Rightarrow> task list" where
  "call_tasks (Set_dependencies t ds) = t # ds"
| "call_tasks (Add_task t) = [t]"
| "call_tasks Flow_run = []"

definition mentioned :: "call list \<Rightarrow> task set" where
  "mentioned cs = set (concat (map call_tasks cs))"

subsection \<open>The dependency graph of a registry\<close>


definition unresolved :: "make_cli \<Rightarrow> task \<Rightarrow> bool" where
  "unresolved obj t =
     list_ex (\<lambda>t_n. dict_get (tasks obj) t_n = None) (elements (deps_get obj t))"




text \<open>
  What allocation and a dictionary guarantee: the registered names are distinct, each
  is bound to a task object of its own, and no object of the registry has an identity
  the allocation counter has yet to reach.
\<close>

definition allocated :: "make_cli \<Rightarrow> bool" where
  "allocated obj =
     (list_all (\<lambda>t. t < next_obj obj) (dict_values (tasks obj)) \<and>
      distinct (dict_keys (tasks obj)) \<and> distinct (dict_values (tasks obj)) \<and>
      task_order obj < next_obj obj)"

subsection \<open>Client scripts\<close>

text \<open>
  \<^verbatim>\<open>@make.task\<close> on each function of \<open>fns\<close> in turn, and
  \<^verbatim>\<open>@make.task(depends=[...])\<close> with a list display.
\<close>

definition register_all :: "name list \<Rightarrow> make_cli \<Rightarrow> make_cli" where
  "register_all fns obj = fold (\<lambda>fn_name obj'. snd (task fn_name Depends_other obj')) fns obj"

definition task_depends :: "name \<Rightarrow> name list \<Rightarrow> make_cli \<Rightarrow> make_cli" where
  "task_depends fn_name ns obj =
     (let (r, obj1) = new_list ns obj in snd (task fn_name (Depends_list r) obj1))"

text \<open>A depends on B and B on A.\<close>

definition two_cycle :: make_cli where
  "two_cycle =
     task_depends ''B'' [''A''] (task_depends ''A'' [''B''] (MakeCLI_init False))"

text \<open>\<open>top\<close> depends on \<open>left\<close> and \<open>right\<close>, which both depend on \<open>base\<close>.\<close>

definition diamond :: make_cli where
  "diamond =
     register_all [''base'']
       (task_depends ''right'' [''base'']
         (task_depends ''left'' [''base'']
           (task_depends ''top'' [''left'', ''right''] (MakeCLI_init False))))"

text \<open>\<open>a\<close> depends on \<open>b\<close>, and \<open>b\<close> on a name that is never registered.\<close>

definition dangling :: make_cli where
  "dangling =
     task_depends ''b'' [''missing''] (task_depends ''a'' [''b''] (MakeCLI_init False))"


text \<open>\<open>f\<close> depends on \<open>g\<close>; then \<open>g\<close> is registered, and another \<open>f\<close> that depends on nothing.\<close>

definition registered_twice :: make_cli where
  "registered_twice =
     register_all [''g'', ''f''] (task_depends ''f'' [''g''] (MakeCLI_init False))"


section \<open>The traversal, one step at a time\<close>

text \<open>
  One equation for each path through the body of the \<^verbatim>\<open>while\<close> loop, with the task
  popped written as the last element of the list.
\<close>

lemma visit_Nil: "visit obj nd [] fetched = (None, [])"
  by (simp add: visit.simps)

lemma visit_leaf:
  "\<not> (truthy (deps_get obj t) \<and> \<not> nd) \<Longrightarrow>
     visit obj nd (to_visit @ [t]) fetched =
       and_then (None, [Add_task t]) (visit obj nd to_visit fetched)"
  by (subst visit.simps) auto

lemma visit_fetched:
  "truthy (deps_get obj t) \<Longrightarrow> \<not> nd \<Longrightarrow> t \<in> fetched \<Longrightarrow>
     visit obj nd (to_visit @ [t]) fetched = visit obj nd to_visit fetched"
  by (subst visit.simps) simp

lemma visit_fail:
  "truthy (deps_get obj t) \<Longrightarrow> \<not> nd \<Longrightarrow> t \<notin> fetched \<Longrightarrow>
   dep_objs obj (elements (deps_get obj t)) = Inl e \<Longrightarrow>
     visit obj nd (to_visit @ [t]) fetched = (Some e, [])"
  by (subst visit.simps) simp

lemma visit_expand:
  "truthy (deps_get obj t) \<Longrightarrow> \<not> nd \<Longrightarrow> t \<notin> fetched \<Longrightarrow>
   dep_objs obj (elements (deps_get obj t)) = Inr ds \<Longrightarrow>
     visit obj nd (to_visit @ [t]) fetched =
       and_then (None, [Set_dependencies t ds])
         (visit obj nd (to_visit @ ds) (insert t fetched))"
  by (subst visit.simps) simp

text \<open>Induction along the iterations of the loop, one case for each path.\<close>

lemma visit_cases_induct [case_names Nil leaf fetched fail expand]:
  assumes "\<And>obj nd fetched. P obj nd [] fetched"
    and "\<And>obj nd to_visit t fetched.
           \<not> (truthy (deps_get obj t) \<and> \<not> nd) \<Longrightarrow> P obj nd to_visit fetched \<Longrightarrow>
           P obj nd (to_visit @ [t]) fetched"
    and "\<And>obj nd to_visit t fetched.
           truthy (deps_get obj t) \<Longrightarrow> \<not> nd \<Longrightarrow> t \<in> fetched \<Longrightarrow>
           P obj nd to_visit fetched \<Longrightarrow>
           P obj nd (to_visit @ [t]) fetched"
    and "\<And>obj nd to_visit t fetched e.
           truthy (deps_get obj t) \<Longrightarrow> \<not> nd \<Longrightarrow> t \<notin> fetched \<Longrightarrow>
           dep_objs obj (elements (deps_get obj t)) = Inl e \<Longrightarrow>
           P obj nd (to_visit @ [t]) fetched"
    and "\<And>obj nd to_visit t fetched ds.
           truthy (deps_get obj t) \<Longrightarrow> \<not> nd \<Longrightarrow> t \<notin> fetched \<Longrightarrow>
           dep_objs obj (elements (deps_get obj t)) = Inr ds \<Longrightarrow>
           P obj nd (to_visit @ ds) (insert t fetched) \<Longrightarrow>
           P obj nd (to_visit @ [t]) fetched"
  shows "P obj nd to_visit fetched"
proof (induction obj nd to_visit fetched rule: visit.induct)
  case (1 obj nd to_visit fetched)
  show ?case
  proof (cases to_visit rule: rev_cases)
    case Nil
    then show ?thesis using assms(1) by simp
  next
    case (snoc rest t)
    then have ne: "to_visit \<noteq> []" and l: "t = last to_visit" and b: "rest = butlast to_visit"
      by simp_all
    show ?thesis
    proof (cases "truthy (deps_get obj t) \<and> \<not> nd")
      case False
      from 1(3)[OF ne l b refl] False have "P obj nd rest fetched" by blast
      with False show ?thesis unfolding snoc by (intro assms(2))
    next
      case True
      show ?thesis
      proof (cases "t \<in> fetched")
        case in_fetched: True
        from 1(1)[OF ne l b refl] True in_fetched have "P obj nd rest fetched" by blast
        with True in_fetched show ?thesis unfolding snoc by (intro assms(3)) simp_all
      next
        case False
        show ?thesis
        proof (cases "dep_objs obj (elements (deps_get obj t))")
          case (Inl e)
          with True False show ?thesis unfolding snoc by (intro assms(4)) simp_all
        next
          case (Inr ds)
          from 1(2)[OF ne l b refl] True False Inr
          have "P obj nd (rest @ ds) (insert t fetched)" by blast
          with True False Inr show ?thesis unfolding snoc by (intro assms(5)) simp_all
        qed
      qed
    qed
  qed
qed

section \<open>Runs that expand nothing\<close>

text \<open>
  When no selected task is expanded (the flag \<^verbatim>\<open>--no-dependencies\<close>, or no task with a
  non-empty list), each selected task is added once, in the order of the dictionary.
\<close>

lemma visit_single_leaf:
  "\<not> (truthy (deps_get obj t) \<and> \<not> nd) \<Longrightarrow> visit obj nd [t] fetched = (None, [Add_task t])"
  using visit_leaf [of obj t nd "[]" fetched] by (simp add: visit_Nil)

lemma run_items_leaves:
  "\<forall>t \<in> set (dict_values items). \<not> (truthy (deps_get obj t) \<and> \<not> nd) \<Longrightarrow>
     run_items obj requested nd items =
       (None, map Add_task (map snd (filter (\<lambda>(task_name, t). task_name \<in> set requested) items)))"
  by (induction items) (auto simp: dict_values_def visit_single_leaf)

lemma selected_effective:
  "map snd (filter (\<lambda>(task_name, t). task_name \<in> set (effective obj requested)) (tasks obj)) =
     selected obj requested"
proof (cases "requested = []")
  case True
  have "filter (\<lambda>(task_name, t). task_name \<in> set (dict_keys (tasks obj))) (tasks obj) = tasks obj"
    by (rule filter_True) (force simp: dict_keys_def)
  with True show ?thesis by (simp add: selected_def effective_def)
next
  case False
  then show ?thesis by (simp add: selected_def effective_def)
qed

lemma run_leaves:
  "\<forall>t \<in> set (dict_values (tasks obj)). \<not> (truthy (deps_get obj t) \<and> \<not> nd) \<Longrightarrow>
     run obj requested nd = (None, map Add_task (selected obj requested) @ [Flow_run])"
  by (simp add: run_def run_items_leaves selected_effective)

text \<open>
  C5. With the flag \<^verbatim>\<open>--no-dependencies\<close> set, for every registry and every argument
  list, \<^verbatim>\<open>run\<close> raises nothing and makes exactly these calls: one \<^verbatim>\<open>add_task\<close> for each
  registered task whose name is an argument (for each registered task when there is no
  argument), in the order of the dictionary and whatever the dependency lists hold, then
  \<^verbatim>\<open>flow.run()\<close>. In particular every registered task whose name is an argument is
  added, no edge is declared, and no task is added that was not asked for.
\<close>

theorem run_no_dependencies:
  "run obj requested True =
     (None,
      map Add_task
        (map snd (filter (\<lambda>(task_name, t). requested = [] \<or> task_name \<in> set requested) (tasks obj)))
      @ [Flow_run]) \<and>
   ((task_name, t) \<in> set (tasks obj) \<and> task_name \<in> set requested \<longrightarrow>
      Add_task t \<in> set (snd (run obj requested True))) \<and>
   expanded (snd (run obj requested True)) = [] \<and>
   set (standalone (snd (run obj requested True))) \<subseteq> set (selected obj requested)"
proof -
  have r: "run obj requested True = (None, map Add_task (selected obj requested) @ [Flow_run])"
    by (rule run_leaves) simp
  have ex: "expanded (map Add_task ts @ [Flow_run]) = []" for ts
    by (induction ts) simp_all
  have st: "standalone (map Add_task ts @ [Flow_run]) = ts" for ts
    by (induction ts) simp_all
  have 1: "run obj requested True =
     (None,
      map Add_task
        (map snd (filter (\<lambda>(task_name, t). requested = [] \<or> task_name \<in> set requested) (tasks obj)))
      @ [Flow_run])"
    unfolding r by (simp only: selected_def)
  have "t \<in> set (selected obj requested)"
    if "(task_name, t) \<in> set (tasks obj)" "task_name \<in> set requested"
    using that by (force simp: selected_def)
  then have 2: "(task_name, t) \<in> set (tasks obj) \<and> task_name \<in> set requested \<longrightarrow>
      Add_task t \<in> set (snd (run obj requested True))"
    unfolding r by simp
  have 3: "expanded (snd (run obj requested True)) = []"
    unfolding r by (simp add: ex)
  have 4: "set (standalone (snd (run obj requested True))) \<subseteq> set (selected obj requested)"
    unfolding r by (simp add: st)
  from 1 2 3 4 show ?thesis by (intro conjI)
qed

theorem run_no_dependencies_witness:
  "truthy (deps_get diamond 2) \<and>
   tasks diamond = [(''top'', 2), (''left'', 4), (''right'', 6), (''base'', 7)] \<and>
   run diamond [''base'', ''top''] True = (None, [Add_task 2, Add_task 7, Flow_run]) \<and>
   Add_task 2 \<in> set (snd (run diamond [''base'', ''top''] True))"
proof -
  have t: "tasks diamond = [(''top'', 2), (''left'', 4), (''right'', 6), (''base'', 7)]"
    and d: "truthy (deps_get diamond 2)"
    by code_simp+
  note w = run_no_dependencies [of diamond "[''base'', ''top'']" "''top''" 2]
  from w have "run diamond [''base'', ''top''] True = (None, [Add_task 2, Add_task 7, Flow_run])"
    by (simp add: t)
  moreover from w have "Add_task 2 \<in> set (snd (run diamond [''base'', ''top''] True))"
    by (simp add: t)
  ultimately show ?thesis using t d by (intro conjI)
qed

section \<open>The requested names\<close>

text \<open>The outer loop reads the requested names only to test the registered names.\<close>

lemma run_items_cong:
  "\<forall>n \<in> set (dict_keys items). n \<in> set requested \<longleftrightarrow> n \<in> set requested' \<Longrightarrow>
     run_items obj requested nd items = run_items obj requested' nd items"
  by (induction items) (auto simp: dict_keys_def)

text \<open>
  C6. For every registry, \<^verbatim>\<open>run\<close> with no task name gives the same outcome (the same
  calls in the same order, the same exception if any) as \<^verbatim>\<open>run\<close> with any argument list
  that names exactly the registered tasks.
\<close>

theorem run_empty_is_all:
  "set requested = set (dict_keys (tasks obj)) \<Longrightarrow> run obj requested nd = run obj [] nd"
proof -
  assume "set requested = set (dict_keys (tasks obj))"
  then have "\<forall>n \<in> set (dict_keys (tasks obj)).
      n \<in> set (effective obj requested) \<longleftrightarrow> n \<in> set (effective obj [])"
    by (simp add: effective_def)
  then show ?thesis
    unfolding run_def by (simp only: run_items_cong)
qed

theorem run_empty_is_all_witness:
  "set [''right'', ''base'', ''top'', ''left''] = set (dict_keys (tasks diamond)) \<and>
   run diamond [''right'', ''base'', ''top'', ''left''] False = run diamond [] False"
proof -
  have h: "set [''right'', ''base'', ''top'', ''left''] = set (dict_keys (tasks diamond))"
    by code_simp
  show ?thesis using h run_empty_is_all [OF h] by simp
qed

section \<open>Names that are not registered\<close>

text \<open>The lookup of the upstream names fails exactly at a name that is not registered.\<close>

lemma dep_objs_Inl:
  "list_ex (\<lambda>t_n. dict_get (tasks obj) t_n = None) ns \<Longrightarrow>
     \<exists>m. dep_objs obj ns = Inl (KeyError m) \<and> dict_get (tasks obj) m = None \<and> m \<in> set ns"
  by (induction ns) (auto split: option.splits sum.splits)



text \<open>A traversal whose first task holds such a name raises before any call.\<close>

lemma visit_root_unresolved:
  assumes "unresolved obj t"
  shows "\<exists>m. visit obj False [t] {} = (Some (KeyError m), []) \<and> dict_get (tasks obj) m = None"
proof -
  from assms have ex: "list_ex (\<lambda>t_n. dict_get (tasks obj) t_n = None) (elements (deps_get obj t))"
    by (simp add: unresolved_def)
  then have tr: "truthy (deps_get obj t)"
    by (cases "deps_get obj t") auto
  from dep_objs_Inl [OF ex] obtain m where
    m: "dep_objs obj (elements (deps_get obj t)) = Inl (KeyError m)" "dict_get (tasks obj) m = None"
    by blast
  from visit_fail [OF tr _ _ m(1), of False "{}" "[]"] m(2) show ?thesis by auto
qed

lemma run_items_first_fails:
  "map_of items m = Some t \<Longrightarrow> visit obj nd [t] {} = (Some e, cs) \<Longrightarrow>
     run_items obj [m] nd items = (Some e, cs)"
  by (induction items) (auto split: if_splits)

lemma run_items_no_request: "run_items obj [] nd items = (None, [])"
  by (induction items) auto

text \<open>
  C9. A requested name \<open>n\<close> that is not registered is passed over: requested alone,
  \<^verbatim>\<open>run\<close> raises nothing, submits nothing and still calls \<^verbatim>\<open>flow.run()\<close>; requested with
  other names, the outcome is that of the other names alone. The same name in the
  dependency list of a registered task \<open>m\<close> is fatal: \<^verbatim>\<open>run\<close> on \<open>m\<close> with dependencies
  raises \<^verbatim>\<open>KeyError\<close> for a name that is not registered.
\<close>

theorem run_unregistered_name:
  "n \<notin> set (dict_keys (tasks obj)) \<Longrightarrow>
     run obj [n] nd = (None, [Flow_run]) \<and>
     (others \<noteq> [] \<and> set requested = insert n (set others) \<longrightarrow>
        run obj requested nd = run obj others nd) \<and>
     (dict_get (tasks obj) m = Some t \<and> n \<in> set (elements (deps_get obj t)) \<longrightarrow>
        (\<exists>m'. run obj [m] False = (Some (KeyError m'), []) \<and> m' \<notin> set (dict_keys (tasks obj))))"
proof (intro conjI impI)
  assume n: "n \<notin> set (dict_keys (tasks obj))"
  have "\<forall>k \<in> set (dict_keys (tasks obj)). k \<in> set [n] \<longleftrightarrow> k \<in> set ([]::name list)"
    using n by auto
  then have "run_items obj [n] nd (tasks obj) = run_items obj [] nd (tasks obj)"
    by (rule run_items_cong)
  also have "\<dots> = (None, [])"
    by (rule run_items_no_request)
  finally show "run obj [n] nd = (None, [Flow_run])"
    by (simp add: run_def effective_def)
next
  assume n: "n \<notin> set (dict_keys (tasks obj))"
    and "others \<noteq> [] \<and> set requested = insert n (set others)"
  then have ne: "others \<noteq> []" "requested \<noteq> []"
    and "\<forall>k \<in> set (dict_keys (tasks obj)). k \<in> set requested \<longleftrightarrow> k \<in> set others"
    by auto
  then have "run_items obj requested nd (tasks obj) = run_items obj others nd (tasks obj)"
    by (intro run_items_cong)
  with ne show "run obj requested nd = run obj others nd"
    by (simp add: run_def effective_def)
next
  assume n: "n \<notin> set (dict_keys (tasks obj))"
    and "dict_get (tasks obj) m = Some t \<and> n \<in> set (elements (deps_get obj t))"
  then have m: "map_of (tasks obj) m = Some t" and d: "n \<in> set (elements (deps_get obj t))"
    by (simp_all add: dict_get_def)
  from n have "dict_get (tasks obj) n = None"
    by (simp add: dict_get_def dict_keys_def map_of_eq_None_iff)
  with d have "unresolved obj t"
    by (auto simp: unresolved_def list_ex_iff)
  from visit_root_unresolved [OF this] obtain m' where
    v: "visit obj False [t] {} = (Some (KeyError m'), [])" and m': "dict_get (tasks obj) m' = None"
    by blast
  from run_items_first_fails [OF m v] have "run obj [m] False = (Some (KeyError m'), [])"
    by (simp add: run_def effective_def)
  moreover from m' have "m' \<notin> set (dict_keys (tasks obj))"
    by (simp add: dict_get_def dict_keys_def map_of_eq_None_iff)
  ultimately show "\<exists>m'. run obj [m] False = (Some (KeyError m'), []) \<and>
      m' \<notin> set (dict_keys (tasks obj))"
    by blast
qed

theorem run_unregistered_name_witness:
  "''missing'' \<notin> set (dict_keys (tasks dangling)) \<and>
   run dangling [''missing''] False = (None, [Flow_run]) \<and>
   run dangling [''missing'', ''a''] True = run dangling [''a''] True \<and>
   (\<exists>m'. run dangling [''b''] False = (Some (KeyError m'), []))"
proof -
  have h: "''missing'' \<notin> set (dict_keys (tasks dangling))"
    by code_simp
  have b: "dict_get (tasks dangling) ''b'' = Some 4"
    by code_simp
  have d: "''missing'' \<in> set (elements (deps_get dangling 4))"
    by code_simp
  from run_unregistered_name [OF h, of False "[''a'']" "[''missing'', ''a'']" "''b''" 4] b d
  have "run dangling [''missing''] False = (None, [Flow_run])"
    and "\<exists>m'. run dangling [''b''] False = (Some (KeyError m'), [])"
    by blast+
  moreover
  from run_unregistered_name [OF h, of True "[''a'']" "[''missing'', ''a'']" "''b''" 4]
  have "run dangling [''missing'', ''a''] True = run dangling [''a''] True"
    by simp
  ultimately show ?thesis using h by blast
qed

section \<open>What a traversal submits\<close>

lemma and_then_None: "and_then (None, cs) r = (fst r, cs @ snd r)"
  by (cases r) simp


lemma truthy_in_keys:
  "truthy (deps_get obj t) \<Longrightarrow> t \<in> set (dict_keys (dependencies obj))"
  by (cases "map_of (dependencies obj) t")
     (auto simp: deps_get_def dict_get_def dict_keys_def dest: map_of_SomeD intro: rev_image_eqI)

text \<open>
  Within one traversal no task is expanded twice, none that was already in
  \<^verbatim>\<open>alredy_fetched_deps_for\<close> is expanded, and only keys of \<^verbatim>\<open>dependencies\<close> are.
\<close>

lemma visit_expanded:
  "distinct (expanded (snd (visit obj nd to_visit fetched))) \<and>
   set (expanded (snd (visit obj nd to_visit fetched))) \<inter> fetched = {} \<and>
   set (expanded (snd (visit obj nd to_visit fetched))) \<subseteq> set (dict_keys (dependencies obj))"
proof (induction obj nd to_visit fetched rule: visit_cases_induct)
  case (Nil obj nd fetched)
  show ?case by (simp add: visit_Nil)
next
  case (leaf obj nd to_visit t fetched)
  then show ?case by (simp add: visit_leaf and_then_None)
next
  case (fetched obj nd to_visit t fetched)
  then show ?case by (simp add: visit_fetched)
next
  case (fail obj nd to_visit t fetched e)
  then show ?case by (simp add: visit_fail)
next
  case (expand obj nd to_visit t fetched ds)
  then show ?case by (simp add: visit_expand and_then_None truthy_in_keys)
qed

text \<open>
  C4. The traversal is a total function (its recursion is well founded: each iteration
  either expands a task not expanded before or shortens the list), so for every registry,
  cyclic or not, every traversal and every \<^verbatim>\<open>run\<close> ends. In one traversal each task is
  expanded at most once, so there are no more expansions than entries of
  \<^verbatim>\<open>dependencies\<close>. On the two-cycle of A and B, \<^verbatim>\<open>run\<close> for A declares B upstream of A
  once, then A upstream of B once, and goes on to \<^verbatim>\<open>flow.run()\<close>.
\<close>

theorem visit_expands_once:
  "distinct (expanded (snd (visit obj nd to_visit fetched))) \<and>
   length (expanded (snd (visit obj nd to_visit fetched))) \<le> length (dependencies obj) \<and>
   (\<exists>tA tB. dict_get (tasks two_cycle) ''A'' = Some tA \<and>
      dict_get (tasks two_cycle) ''B'' = Some tB \<and>
      run two_cycle [''A''] False =
        (None, [Set_dependencies tA [tB], Set_dependencies tB [tA], Flow_run]))"
proof (intro conjI)
  let ?ex = "expanded (snd (visit obj nd to_visit fetched))"
  from visit_expanded [of obj nd to_visit fetched]
  have d: "distinct ?ex" and s: "set ?ex \<subseteq> set (dict_keys (dependencies obj))"
    by blast+
  show "distinct ?ex" by (rule d)
  from d have "length ?ex = card (set ?ex)"
    by (simp add: distinct_card)
  also from s have "\<dots> \<le> card (set (dict_keys (dependencies obj)))"
    by (intro card_mono) simp_all
  also have "\<dots> \<le> length (dependencies obj)"
    using card_length [of "dict_keys (dependencies obj)"] by (simp add: dict_keys_def)
  finally show "length ?ex \<le> length (dependencies obj)" .
  have ev: "dict_get (tasks two_cycle) ''A'' = Some 2"
    "dict_get (tasks two_cycle) ''B'' = Some 4"
    "run two_cycle [''A''] False =
        (None, [Set_dependencies 2 [4], Set_dependencies 4 [2], Flow_run])"
    by code_simp+
  show "\<exists>tA tB. dict_get (tasks two_cycle) ''A'' = Some tA \<and>
      dict_get (tasks two_cycle) ''B'' = Some tB \<and>
      run two_cycle [''A''] False =
        (None, [Set_dependencies tA [tB], Set_dependencies tB [tA], Flow_run])"
    by (rule exI [of _ 2], rule exI [of _ 4]) (simp only: ev simp_thms)
qed

text \<open>
  C10. A task whose recorded list is empty or absent is added each time it is popped,
  whatever \<^verbatim>\<open>alredy_fetched_deps_for\<close> holds: the guard is on the other branch only.
  In the diamond, \<open>base\<close> is reached through \<open>left\<close> and through \<open>right\<close> and is added
  twice in the one traversal that \<^verbatim>\<open>run\<close> for \<open>top\<close> makes.
\<close>

theorem leaf_added_at_each_pop:
  "(\<not> truthy (deps_get obj t) \<longrightarrow>
      visit obj nd (to_visit @ [t]) fetched =
        and_then (None, [Add_task t]) (visit obj nd to_visit fetched)) \<and>
   (\<exists>top left right base.
      map (dict_get (tasks diamond)) [''top'', ''left'', ''right'', ''base''] =
        [Some top, Some left, Some right, Some base] \<and>
      run diamond [''top''] False =
        (None, [Set_dependencies top [left, right], Set_dependencies right [base], Add_task base,
                Set_dependencies left [base], Add_task base, Flow_run]))"
proof (intro conjI impI)
  assume "\<not> truthy (deps_get obj t)"
  then show "visit obj nd (to_visit @ [t]) fetched =
      and_then (None, [Add_task t]) (visit obj nd to_visit fetched)"
    by (simp add: visit_leaf)
next
  have ev: "map (dict_get (tasks diamond)) [''top'', ''left'', ''right'', ''base''] =
        [Some 2, Some 4, Some 6, Some 7]"
    "run diamond [''top''] False =
        (None, [Set_dependencies 2 [4, 6], Set_dependencies 6 [7], Add_task 7,
                Set_dependencies 4 [7], Add_task 7, Flow_run])"
    by code_simp+
  show "\<exists>top left right base.
      map (dict_get (tasks diamond)) [''top'', ''left'', ''right'', ''base''] =
        [Some top, Some left, Some right, Some base] \<and>
      run diamond [''top''] False =
        (None, [Set_dependencies top [left, right], Set_dependencies right [base], Add_task base,
                Set_dependencies left [base], Add_task base, Flow_run])"
    by (rule exI [of _ 2], rule exI [of _ 4], rule exI [of _ 6], rule exI [of _ 7])
       (simp only: ev simp_thms)
qed

theorem leaf_added_at_each_pop_witness:
  "\<not> truthy (deps_get diamond 7) \<and>
   visit diamond False [4, 7] {2, 6} = (None, [Add_task 7, Set_dependencies 4 [7], Add_task 7])"
proof -
  have h: "\<not> truthy (deps_get diamond 7)"
    by code_simp
  have r: "visit diamond False [4] {2, 6} = (None, [Set_dependencies 4 [7], Add_task 7])"
    by code_simp
  from leaf_added_at_each_pop [of diamond 7 False "[4]" "{2, 6}"] h r show ?thesis
    by simp
qed

section \<open>Registration\<close>

lemma dict_get_set:
  "dict_get (dict_set d k v) k' = (if k' = k then Some v else dict_get d k')"
  by (induction d) (auto simp: dict_get_def)

lemma dict_keys_set:
  "dict_keys (dict_set d k v) =
     (if k \<in> set (dict_keys d) then dict_keys d else dict_keys d @ [k])"
  by (induction d) (force simp: dict_keys_def)+

lemma dict_values_set:
  "set (dict_values (dict_set d k v)) \<subseteq> insert v (set (dict_values d))"
  by (induction d) (force simp: dict_values_def split: if_splits)+

lemma dict_values_set_distinct:
  "distinct (dict_values d) \<Longrightarrow> v \<notin> set (dict_values d) \<Longrightarrow>
     distinct (dict_values (dict_set d k v))"
proof (induction d)
  case Nil
  show ?case by (simp add: dict_values_def)
next
  case (Cons kv d)
  obtain k' v' where kv: "kv = (k', v')" by (cases kv)
  from Cons.prems have d: "distinct (dict_values d)" "v \<notin> set (dict_values d)"
    "v' \<notin> set (dict_values d)" "v \<noteq> v'"
    by (auto simp: kv dict_values_def)
  from dict_values_set [of d k v] d(3,4)
  have "v' \<notin> set (dict_values (dict_set d k v))" by auto
  with Cons.IH [OF d(1,2)] d show ?case
    by (auto simp: kv dict_values_def)
qed

lemma dict_set_overwrites:
  "distinct (dict_keys d) \<Longrightarrow> distinct (dict_values d) \<Longrightarrow> dict_get d k = Some v \<Longrightarrow>
     v \<noteq> v' \<Longrightarrow> v \<notin> set (dict_values (dict_set d k v'))"
proof (induction d)
  case Nil
  then show ?case by (simp add: dict_get_def)
next
  case (Cons kv d)
  obtain k0 v0 where kv: "kv = (k0, v0)" by (cases kv)
  show ?case
  proof (cases "k0 = k")
    case True
    with Cons.prems show ?thesis
      by (auto simp: kv dict_get_def dict_values_def dict_keys_def)
  next
    case False
    with Cons.prems have "dict_get d k = Some v" "distinct (dict_keys d)"
      "distinct (dict_values d)" "v0 \<noteq> v"
      by (auto simp: kv dict_get_def dict_values_def dict_keys_def dest: map_of_SomeD
          intro: rev_image_eqI)
    with Cons.IH Cons.prems(4) False show ?thesis
      by (auto simp: kv dict_values_def)
  qed
qed

text \<open>The store after an append and after an allocation.\<close>

lemma list_at_append:
  "list_at (list_append r x obj) r' = (if r' = r then list_at obj r @ [x] else list_at obj r')"
  by (simp add: list_at_def list_append_def dict_get_set)

lemma list_append_fields:
  "dependencies (list_append r x obj) = dependencies obj"
  "tasks (list_append r x obj) = tasks obj"
  "task_order (list_append r x obj) = task_order obj"
  "implied_order (list_append r x obj) = implied_order obj"
  "next_obj (list_append r x obj) = next_obj obj"
  by (simp_all add: list_append_def)

lemma new_list_fields:
  "fst (new_list ns obj) = next_obj obj"
  "list_at (snd (new_list ns obj)) r = (if r = next_obj obj then ns else list_at obj r)"
  "dependencies (snd (new_list ns obj)) = dependencies obj"
  "tasks (snd (new_list ns obj)) = tasks obj"
  "task_order (snd (new_list ns obj)) = task_order obj"
  "implied_order (snd (new_list ns obj)) = implied_order obj"
  "next_obj (snd (new_list ns obj)) = Suc (next_obj obj)"
  by (simp_all add: new_list_def list_at_def dict_get_set)

text \<open>What \<^verbatim>\<open>task\<close> leaves in each field.\<close>

lemma task_fields:
  assumes "task fn_name depends obj = (t, obj')"
  shows "t = next_obj obj"
    and "tasks obj' = dict_set (tasks obj) fn_name t"
    and "task_order obj' = task_order obj"
    and "implied_order obj' = implied_order obj"
    and "next_obj obj < next_obj obj'"
    and "dependencies obj' = dict_set (dependencies obj) t
           (case depends of Depends_list r \<Rightarrow> r | Depends_other \<Rightarrow> Suc (next_obj obj))"
  using assms
  by (auto simp: task_def new_list_def Let_def list_append_def
      split: depends_arg.splits if_splits)

text \<open>
  The elements of every list after \<^verbatim>\<open>task\<close>: those it had (none for the list made for
  a \<^verbatim>\<open>depends\<close> that is no list), then the implied name if this is the list recorded for
  the new task, then the name registered if this is \<^verbatim>\<open>task_order\<close>.
\<close>

lemma task_list_at:
  assumes "task fn_name depends obj = (t, obj')"
  shows "list_at obj' r' =
      (if depends = Depends_other \<and> r' = Suc (next_obj obj) then [] else list_at obj r') @
      (if r' = (case depends of Depends_list r \<Rightarrow> r | Depends_other \<Rightarrow> Suc (next_obj obj)) \<and>
          implied_order obj \<and>
          (if depends = Depends_other \<and> task_order obj = Suc (next_obj obj) then []
           else list_at obj (task_order obj)) \<noteq> []
       then [last (list_at obj (task_order obj))] else []) @
      (if r' = task_order obj then [fn_name] else [])"
  using assms
  by (cases depends)
     (auto simp: task_def Let_def split_beta new_list_def list_at_def list_append_def dict_get_set)

lemma task_deps:
  assumes "task_order obj < next_obj obj" and "task fn_name depends obj = (t, obj')"
  shows "deps_get obj' t =
      Some ((case depends of Depends_list r \<Rightarrow> list_at obj r | Depends_other \<Rightarrow> []) @
            (if implied_order obj \<and> list_at obj (task_order obj) \<noteq> []
             then [last (list_at obj (task_order obj))] else []) @
            (if depends = Depends_list (task_order obj) then [fn_name] else []))"
    and "list_at obj' (task_order obj') =
      list_at obj (task_order obj) @
      (if depends = Depends_list (task_order obj) \<and> implied_order obj \<and>
          list_at obj (task_order obj) \<noteq> []
       then [last (list_at obj (task_order obj))] else []) @
      [fn_name]"
proof -
  note f = task_fields [OF assms(2)]
  from assms(1) have ne: "task_order obj \<noteq> Suc (next_obj obj)" by simp
  show "deps_get obj' t =
      Some ((case depends of Depends_list r \<Rightarrow> list_at obj r | Depends_other \<Rightarrow> []) @
            (if implied_order obj \<and> list_at obj (task_order obj) \<noteq> []
             then [last (list_at obj (task_order obj))] else []) @
            (if depends = Depends_list (task_order obj) then [fn_name] else []))"
    using ne
    by (cases depends)
       (auto simp: deps_get_def f(6) dict_get_set task_list_at [OF assms(2)])
  show "list_at obj' (task_order obj') =
      list_at obj (task_order obj) @
      (if depends = Depends_list (task_order obj) \<and> implied_order obj \<and>
          list_at obj (task_order obj) \<noteq> []
       then [last (list_at obj (task_order obj))] else []) @
      [fn_name]"
    using ne
    by (cases depends) (auto simp: f(3) task_list_at [OF assms(2)])
qed




text \<open>
  The names stay distinct, each bound to a task object of its own, and the identities in
  use stay below the allocation counter: a new task object is none of the registered
  ones, and a new list is not \<^verbatim>\<open>task_order\<close>.
\<close>

lemma allocated_init: "allocated (MakeCLI_init implied)"
  by (simp add: allocated_def MakeCLI_init_def dict_values_def dict_keys_def)

lemma allocated_new_list: "allocated obj \<Longrightarrow> allocated (snd (new_list ns obj))"
  by (auto simp: allocated_def new_list_def list_all_iff)

lemma allocated_task:
  assumes "allocated obj" and "task fn_name depends obj = (t, obj')"
  shows "allocated obj'"
proof -
  note f = task_fields [OF assms(2)]
  from assms(1) have a: "\<forall>u \<in> set (dict_values (tasks obj)). u < next_obj obj"
    "distinct (dict_keys (tasks obj))" "distinct (dict_values (tasks obj))"
    "task_order obj < next_obj obj"
    by (simp_all add: allocated_def list_all_iff)
  from a(1) f(1) have fresh: "t \<notin> set (dict_values (tasks obj))" by auto
  have "set (dict_values (tasks obj')) \<subseteq> insert t (set (dict_values (tasks obj)))"
    unfolding f(2) by (rule dict_values_set)
  with a(1) f(1,5) have 1: "\<forall>u \<in> set (dict_values (tasks obj')). u < next_obj obj'"
    by fastforce
  from a(2) have 2: "distinct (dict_keys (tasks obj'))"
    by (simp add: f(2) dict_keys_set)
  from a(3) fresh have 3: "distinct (dict_values (tasks obj'))"
    unfolding f(2) by (rule dict_values_set_distinct)
  from a(4) f(3,5) have 4: "task_order obj' < next_obj obj'" by simp
  from 1 2 3 4 show ?thesis
    by (simp add: allocated_def list_all_iff)
qed

lemma allocated_register_all: "allocated obj \<Longrightarrow> allocated (register_all fns obj)"
proof (induction fns arbitrary: obj)
  case Nil
  then show ?case by (simp add: register_all_def)
next
  case (Cons fn_name fns)
  have "task fn_name Depends_other obj =
      (fst (task fn_name Depends_other obj), snd (task fn_name Depends_other obj))"
    by simp
  with Cons.prems have "allocated (snd (task fn_name Depends_other obj))"
    by (rule allocated_task)
  from Cons.IH [OF this] show ?case by (simp add: register_all_def)
qed

text \<open>Every task in a call of \<^verbatim>\<open>run\<close> is a value of \<^verbatim>\<open>tasks\<close>.\<close>

lemma dep_objs_values:
  "dep_objs obj ns = Inr ds \<Longrightarrow> set ds \<subseteq> set (dict_values (tasks obj))"
  by (induction ns arbitrary: ds)
     (force simp: dict_get_def dict_values_def split: option.splits sum.splits dest: map_of_SomeD)+

lemma mentioned_Cons: "mentioned (c # cs) = set (call_tasks c) \<union> mentioned cs"
  by (simp add: mentioned_def)

lemma mentioned_Nil: "mentioned [] = {}"
  by (simp add: mentioned_def)

lemma visit_mentioned:
  "mentioned (snd (visit obj nd to_visit fetched)) \<subseteq> set to_visit \<union> set (dict_values (tasks obj))"
proof (induction obj nd to_visit fetched rule: visit_cases_induct)
  case (Nil obj nd fetched)
  show ?case by (simp add: visit_Nil mentioned_Nil)
next
  case (leaf obj nd to_visit t fetched)
  then show ?case by (auto simp: visit_leaf and_then_None mentioned_Cons)
next
  case (fetched obj nd to_visit t fetched)
  then show ?case by (auto simp: visit_fetched)
next
  case (fail obj nd to_visit t fetched e)
  then show ?case by (simp add: visit_fail mentioned_Nil)
next
  case (expand obj nd to_visit t fetched ds)
  from expand(4) have "set ds \<subseteq> set (dict_values (tasks obj))"
    by (rule dep_objs_values)
  with expand show ?case
    by (auto simp: visit_expand and_then_None mentioned_Cons)
qed

lemma and_then_snd: "set (snd (and_then r r')) \<subseteq> set (snd r) \<union> set (snd r')"
  by (cases r; cases "fst r"; cases r') auto

lemma and_then_mentioned:
  "mentioned (snd (and_then r r')) \<subseteq> mentioned (snd r) \<union> mentioned (snd r')"
  using and_then_snd [of r r'] by (auto simp: mentioned_def)

lemma run_items_mentioned:
  "mentioned (snd (run_items obj requested nd items)) \<subseteq>
     set (dict_values items) \<union> set (dict_values (tasks obj))"
proof (induction items)
  case Nil
  show ?case by (simp add: mentioned_Nil)
next
  case (Cons item items)
  obtain task_name t where item: "item = (task_name, t)" by (cases item)
  show ?case
  proof (cases "task_name \<in> set requested")
    case True
    from visit_mentioned [of obj nd "[t]" "{}"] Cons
      and_then_mentioned [of "visit obj nd [t] {}" "run_items obj requested nd items"]
    show ?thesis unfolding item using True
      by (auto simp: dict_values_def)
  next
    case False
    with Cons show ?thesis unfolding item by (auto simp: dict_values_def)
  qed
qed

lemma run_mentioned:
  "mentioned (snd (run obj requested nd)) \<subseteq> set (dict_values (tasks obj))"
  using run_items_mentioned [of obj "effective obj requested" nd "tasks obj"]
    and_then_mentioned [of "run_items obj (effective obj requested) nd (tasks obj)" "(None, [Flow_run])"]
  by (auto simp: run_def mentioned_def)

text \<open>A run for one registered name is the traversal from the task the name is bound to.\<close>

lemma and_then_Nil: "and_then r (None, []) = r"
  by (cases r; cases "fst r") auto

lemma run_items_other_names:
  "k \<notin> set (dict_keys items) \<Longrightarrow> run_items obj [k] nd items = (None, [])"
  by (induction items) (auto simp: dict_keys_def)

lemma run_items_single:
  "distinct (dict_keys items) \<Longrightarrow> dict_get items k = Some v \<Longrightarrow>
     run_items obj [k] nd items = visit obj nd [v] {}"
proof (induction items)
  case Nil
  then show ?case by (simp add: dict_get_def)
next
  case (Cons item items)
  obtain k0 v0 where item: "item = (k0, v0)" by (cases item)
  show ?case
  proof (cases "k0 = k")
    case True
    with Cons.prems have "v0 = v" "k \<notin> set (dict_keys items)"
      by (auto simp: item dict_get_def dict_keys_def)
    with True show ?thesis
      by (simp add: item run_items_other_names and_then_Nil)
  next
    case False
    with Cons.prems have "distinct (dict_keys items)" "dict_get items k = Some v"
      by (auto simp: item dict_get_def dict_keys_def)
    with Cons.IH False show ?thesis by (simp add: item)
  qed
qed

lemma run_single:
  "distinct (dict_keys (tasks obj)) \<Longrightarrow> dict_get (tasks obj) k = Some v \<Longrightarrow>
     run obj [k] nd = and_then (visit obj nd [v] {}) (None, [Flow_run])"
  by (simp add: run_def effective_def run_items_single)

text \<open>
  C7. When a name is bound to a task object and a function of that name is registered
  again (at once or after other registrations), \<^verbatim>\<open>task\<close>, which has no error result,
  leaves the name bound to the new task object and every other name bound as it was, with
  the same keys in the same order; the old object is no value of the dictionary any more.
  The list recorded for the new object is made of its own \<^verbatim>\<open>depends\<close> and the implied
  name, with nothing of what was recorded for the old one. A \<^verbatim>\<open>run\<close> for the name is the
  traversal from the new object, which is added alone when it has no dependencies or the
  flag is set, and no call of any later \<^verbatim>\<open>run\<close> mentions the old object.
\<close>

theorem task_overwrites:
  "allocated obj \<Longrightarrow> dict_get (tasks obj) fn_name = Some t1 \<Longrightarrow>
   task fn_name depends obj = (t2, obj') \<Longrightarrow>
     dict_get (tasks obj') fn_name = Some t2 \<and> t2 \<noteq> t1 \<and>
     dict_keys (tasks obj') = dict_keys (tasks obj) \<and>
     (n \<noteq> fn_name \<longrightarrow> dict_get (tasks obj') n = dict_get (tasks obj) n) \<and>
     t1 \<notin> set (dict_values (tasks obj')) \<and>
     deps_get obj' t2 =
       Some ((case depends of Depends_list r \<Rightarrow> list_at obj r | Depends_other \<Rightarrow> []) @
             (if implied_order obj \<and> list_at obj (task_order obj) \<noteq> []
              then [last (list_at obj (task_order obj))] else []) @
             (if depends = Depends_list (task_order obj) then [fn_name] else [])) \<and>
     run obj' [fn_name] nd = and_then (visit obj' nd [t2] {}) (None, [Flow_run]) \<and>
     (\<not> truthy (deps_get obj' t2) \<or> nd \<longrightarrow>
        run obj' [fn_name] nd = (None, [Add_task t2, Flow_run])) \<and>
     t1 \<notin> mentioned (snd (run obj' requested nd'))"
proof -
  assume a: "allocated obj" and g1: "dict_get (tasks obj) fn_name = Some t1"
    and r: "task fn_name depends obj = (t2, obj')"
  note f = task_fields [OF r]
  from a have al: "\<forall>u \<in> set (dict_values (tasks obj)). u < next_obj obj"
    "distinct (dict_keys (tasks obj))" "distinct (dict_values (tasks obj))"
    "task_order obj < next_obj obj"
    by (simp_all add: allocated_def list_all_iff)
  from g1 have in1: "t1 \<in> set (dict_values (tasks obj))" "fn_name \<in> set (dict_keys (tasks obj))"
    by (auto simp: dict_get_def dict_values_def dict_keys_def dest!: map_of_SomeD
        intro: rev_image_eqI)
  with al(1) f(1) have ne: "t2 \<noteq> t1" by auto
  have g2: "dict_get (tasks obj') fn_name = Some t2"
    by (simp add: f(2) dict_get_set)
  have k: "dict_keys (tasks obj') = dict_keys (tasks obj)"
    using in1(2) by (simp add: f(2) dict_keys_set)
  have o: "n \<noteq> fn_name \<longrightarrow> dict_get (tasks obj') n = dict_get (tasks obj) n"
    by (simp add: f(2) dict_get_set)
  from al(2,3) g1 ne have v: "t1 \<notin> set (dict_values (tasks obj'))"
    unfolding f(2) by (intro dict_set_overwrites) auto
  note d = task_deps(1) [OF al(4) r]
  from al(2) k have dk: "distinct (dict_keys (tasks obj'))" by simp
  from dk g2 have rs: "run obj' [fn_name] nd = and_then (visit obj' nd [t2] {}) (None, [Flow_run])"
    by (rule run_single)
  have rl: "\<not> truthy (deps_get obj' t2) \<or> nd \<longrightarrow>
      run obj' [fn_name] nd = (None, [Add_task t2, Flow_run])"
  proof
    assume "\<not> truthy (deps_get obj' t2) \<or> nd"
    then have "\<not> (truthy (deps_get obj' t2) \<and> \<not> nd)" by blast
    then show "run obj' [fn_name] nd = (None, [Add_task t2, Flow_run])"
      by (simp add: rs visit_single_leaf)
  qed
  from v run_mentioned [of obj' requested nd']
  have m: "t1 \<notin> mentioned (snd (run obj' requested nd'))"
    by auto
  from g2 ne k o v d rs rl m show ?thesis
    by (intro conjI)
qed

theorem task_overwrites_witness:
  "allocated (register_all [''g''] (task_depends ''f'' [''g''] (MakeCLI_init False))) \<and>
   tasks (register_all [''g''] (task_depends ''f'' [''g''] (MakeCLI_init False))) =
     [(''f'', 2), (''g'', 3)] \<and>
   deps_get (register_all [''g''] (task_depends ''f'' [''g''] (MakeCLI_init False))) 2 =
     Some [''g''] \<and>
   tasks registered_twice = [(''f'', 5), (''g'', 3)] \<and>
   deps_get registered_twice 5 = Some [] \<and>
   run registered_twice [''f''] False = (None, [Add_task 5, Flow_run]) \<and>
   2 \<notin> mentioned (snd (run registered_twice [] False))"
proof -
  let ?obj = "register_all [''g''] (task_depends ''f'' [''g''] (MakeCLI_init False))"
  have a: "allocated ?obj"
    and g: "dict_get (tasks ?obj) ''f'' = Some 2"
    and r: "task ''f'' Depends_other ?obj = (5, registered_twice)"
    and e: "tasks ?obj = [(''f'', 2), (''g'', 3)]" "deps_get ?obj 2 = Some [''g'']"
      "tasks registered_twice = [(''f'', 5), (''g'', 3)]"
    by code_simp+
  have io: "\<not> implied_order ?obj"
    by code_simp
  note w = task_overwrites [where n = "''g''" and nd = False and requested = "[]" and nd' = False, OF a g r]
  from w io have d: "deps_get registered_twice 5 = Some []"
    by simp
  then have "\<not> truthy (deps_get registered_twice 5)"
    by simp
  with w have "run registered_twice [''f''] False = (None, [Add_task 5, Flow_run])"
    by blast
  moreover from w have "2 \<notin> mentioned (snd (run registered_twice [] False))"
    by blast
  ultimately show ?thesis using a e d by (intro conjI)
qed

section \<open>Implied order\<close>

text \<open>
  C2. With implied order on, registering three functions with distinct names \<open>a\<close>, \<open>b\<close>,
  \<open>c\<close> in that order, without \<^verbatim>\<open>depends\<close>, and running for \<open>c\<close> alone with dependencies:
  nothing is raised, the calls declare \<open>b\<close> upstream of \<open>c\<close> and \<open>a\<close> upstream of \<open>b\<close>, add
  \<open>a\<close>, and \<^verbatim>\<open>flow.run()\<close> follows; the edges declared are exactly those two.
\<close>

theorem implied_chain:
  "a \<noteq> b \<Longrightarrow> a \<noteq> c \<Longrightarrow> b \<noteq> c \<Longrightarrow>
   task a Depends_other (MakeCLI_init True) = (tA, obj1) \<Longrightarrow>
   task b Depends_other obj1 = (tB, obj2) \<Longrightarrow>
   task c Depends_other obj2 = (tC, obj3) \<Longrightarrow>
     run obj3 [c] False =
       (None, [Set_dependencies tC [tB], Set_dependencies tB [tA], Add_task tA, Flow_run]) \<and>
     edges (snd (run obj3 [c] False)) = {(tA, tB), (tB, tC)}"
proof -
  assume ne: "a \<noteq> b" "a \<noteq> c" "b \<noteq> c"
    and r1: "task a Depends_other (MakeCLI_init True) = (tA, obj1)"
    and r2: "task b Depends_other obj1 = (tB, obj2)"
    and r3: "task c Depends_other obj2 = (tC, obj3)"
  from r1 have e1: "tA = 1"
    "obj1 = \<lparr>dependencies = [(1, 2)], tasks = [(a, 1)], task_order = 0,
        implied_order = True, lists = [(0, [a]), (2, [])], next_obj = 3\<rparr>"
    by (auto simp: task_def new_list_def list_append_def list_at_def dict_get_def
        MakeCLI_init_def Let_def eval_nat_numeral)
  from r2 have e2: "tB = 3"
    "obj2 = \<lparr>dependencies = [(1, 2), (3, 4)], tasks = [(a, 1), (b, 3)], task_order = 0,
        implied_order = True, lists = [(0, [a, b]), (2, []), (4, [a])], next_obj = 5\<rparr>"
    using ne unfolding e1
    by (auto simp: task_def new_list_def list_append_def list_at_def dict_get_def
        Let_def eval_nat_numeral)
  from r3 have e3: "tC = 5"
    "obj3 = \<lparr>dependencies = [(1, 2), (3, 4), (5, 6)], tasks = [(a, 1), (b, 3), (c, 5)],
        task_order = 0, implied_order = True,
        lists = [(0, [a, b, c]), (2, []), (4, [a]), (6, [b])], next_obj = 7\<rparr>"
    using ne unfolding e2
    by (auto simp: task_def new_list_def list_append_def list_at_def dict_get_def
        Let_def eval_nat_numeral)
  have d: "deps_get obj3 5 = Some [b]" "deps_get obj3 3 = Some [a]" "deps_get obj3 1 = Some []"
    by (simp_all add: e3 deps_get_def list_at_def dict_get_def)
  have t: "tasks obj3 = [(a, 1), (b, 3), (c, 5)]"
    by (simp add: e3)
  have o: "dep_objs obj3 [b] = Inr [3]" "dep_objs obj3 [a] = Inr [1]"
    using ne by (simp_all add: t dict_get_def)
  have v0: "visit obj3 False [1] {3, 5} = (None, [Add_task 1])"
    using d(3) by (intro visit_single_leaf) simp
  have "visit obj3 False ([] @ [3]) {5} =
      and_then (None, [Set_dependencies 3 [1]]) (visit obj3 False ([] @ [1]) (insert 3 {5}))"
    by (rule visit_expand) (simp_all add: d o del: dep_objs.simps)
  with v0 have v2: "visit obj3 False [3] {5} = (None, [Set_dependencies 3 [1], Add_task 1])"
    by simp
  have "visit obj3 False ([] @ [5]) {} =
      and_then (None, [Set_dependencies 5 [3]]) (visit obj3 False ([] @ [3]) (insert 5 {}))"
    by (rule visit_expand) (simp_all add: d o del: dep_objs.simps)
  with v2 have v4: "visit obj3 False [5] {} =
      (None, [Set_dependencies 5 [3], Set_dependencies 3 [1], Add_task 1])"
    by simp
  have r: "run obj3 [c] False =
      (None, [Set_dependencies 5 [3], Set_dependencies 3 [1], Add_task 1, Flow_run])"
    using ne by (simp add: run_def effective_def t v4)
  have "edges (snd (run obj3 [c] False)) = {(1, 3), (3, 5)}"
    unfolding r by (auto simp: edges_def)
  with r show ?thesis
    by (simp add: e1 e2 e3)
qed

theorem implied_chain_witness:
  "edges (snd (run (register_all [''A'', ''B'', ''C''] (MakeCLI_init True)) [''C''] False)) =
     {(1, 3), (3, 5)} \<and>
   tasks (register_all [''A'', ''B'', ''C''] (MakeCLI_init True)) =
     [(''A'', 1), (''B'', 3), (''C'', 5)]"
proof -
  let ?obj1 = "register_all [''A''] (MakeCLI_init True)"
  let ?obj2 = "register_all [''A'', ''B''] (MakeCLI_init True)"
  let ?obj3 = "register_all [''A'', ''B'', ''C''] (MakeCLI_init True)"
  have "fst (task ''A'' Depends_other (MakeCLI_init True)) = 1"
    "fst (task ''B'' Depends_other ?obj1) = 3" "fst (task ''C'' Depends_other ?obj2) = 5"
    by code_simp+
  moreover have "snd (task ''A'' Depends_other (MakeCLI_init True)) = ?obj1"
    "snd (task ''B'' Depends_other ?obj1) = ?obj2"
    "snd (task ''C'' Depends_other ?obj2) = ?obj3"
    by (simp_all add: register_all_def)
  ultimately have r: "task ''A'' Depends_other (MakeCLI_init True) = (1, ?obj1)"
    "task ''B'' Depends_other ?obj1 = (3, ?obj2)"
    "task ''C'' Depends_other ?obj2 = (5, ?obj3)"
    by (simp_all add: prod_eq_iff)
  have n: "''A'' \<noteq> ''B''" "''A'' \<noteq> ''C''" "''B'' \<noteq> ''C''"
    by simp_all
  have t: "tasks ?obj3 = [(''A'', 1), (''B'', 3), (''C'', 5)]"
    by code_simp
  from implied_chain [OF n r] have
    "edges (snd (run ?obj3 [''C''] False)) = {(1, 3), (3, 5)}"
    by (rule conjunct2)
  then show ?thesis using t
    by (rule conjI)
qed

section \<open>Registrations without dependencies\<close>

text \<open>
  Without implied order, \<^verbatim>\<open>@make.task\<close> without \<^verbatim>\<open>depends\<close> records a new empty list and
  leaves every other recorded list as it was: no recorded list is \<^verbatim>\<open>task_order\<close>, the
  one list that grows.
\<close>

lemma dict_set_subset: "set (dict_set d k v) \<subseteq> insert (k, v) (set d)"
  by (induction d) (auto split: if_splits)

lemma task_plain_no_deps:
  assumes "\<not> implied_order obj" and "task_order obj < next_obj obj"
    and "\<forall>(u, r) \<in> set (dependencies obj). r \<noteq> task_order obj \<and> list_at obj r = []"
  shows "\<forall>(u, r) \<in> set (dependencies (snd (task fn_name Depends_other obj))).
      r \<noteq> task_order (snd (task fn_name Depends_other obj)) \<and>
      list_at (snd (task fn_name Depends_other obj)) r = []"
proof -
  let ?obj = "snd (task fn_name Depends_other obj)"
  have r: "task fn_name Depends_other obj = (fst (task fn_name Depends_other obj), ?obj)"
    by simp
  note f = task_fields [OF r] and l = task_list_at [OF r]
  have "r \<noteq> task_order ?obj \<and> list_at ?obj r = []" if "(u, r) \<in> set (dependencies ?obj)" for u r
  proof -
    from that dict_set_subset have "r = Suc (next_obj obj) \<or> (u, r) \<in> set (dependencies obj)"
      unfolding f(6) by fastforce
    then show ?thesis
    proof
      assume "r = Suc (next_obj obj)"
      with assms(1,2) show ?thesis by (simp add: f(3) l)
    next
      assume "(u, r) \<in> set (dependencies obj)"
      with assms(3) have "r \<noteq> task_order obj" "list_at obj r = []" by auto
      with assms(1) show ?thesis by (simp add: f(3) l)
    qed
  qed
  then show ?thesis by blast
qed

lemma no_deps_not_truthy:
  assumes "\<forall>(u, r) \<in> set (dependencies obj). r \<noteq> task_order obj \<and> list_at obj r = []"
  shows "\<not> truthy (deps_get obj t)"
proof (cases "dict_get (dependencies obj) t")
  case None
  then show ?thesis by (simp add: deps_get_def)
next
  case (Some r)
  then have "(t, r) \<in> set (dependencies obj)"
    by (auto simp: dict_get_def dest: map_of_SomeD)
  with assms have "list_at obj r = []" by auto
  with Some show ?thesis by (simp add: deps_get_def)
qed

lemma task_plain_keys:
  "dict_keys (tasks (snd (task fn_name depends obj))) =
     (if fn_name \<in> set (dict_keys (tasks obj)) then dict_keys (tasks obj)
      else dict_keys (tasks obj) @ [fn_name])"
  using task_fields(2) [of fn_name depends obj
      "fst (task fn_name depends obj)" "snd (task fn_name depends obj)"]
  by (simp add: dict_keys_set)

lemma register_all_Cons:
  "register_all (fn_name # fns) obj = register_all fns (snd (task fn_name Depends_other obj))"
  by (simp add: register_all_def)

lemma register_all_plain:
  "\<not> implied_order obj \<Longrightarrow> task_order obj < next_obj obj \<Longrightarrow>
   \<forall>(u, r) \<in> set (dependencies obj). r \<noteq> task_order obj \<and> list_at obj r = [] \<Longrightarrow>
   distinct (dict_keys (tasks obj)) \<Longrightarrow>
     (\<forall>u. \<not> truthy (deps_get (register_all fns obj) u)) \<and>
     distinct (dict_keys (tasks (register_all fns obj))) \<and>
     set (dict_keys (tasks (register_all fns obj))) = set (dict_keys (tasks obj)) \<union> set fns"
proof (induction fns arbitrary: obj)
  case Nil
  then show ?case by (simp add: register_all_def no_deps_not_truthy)
next
  case (Cons fn_name fns)
  let ?obj = "snd (task fn_name Depends_other obj)"
  have r: "task fn_name Depends_other obj = (fst (task fn_name Depends_other obj), ?obj)"
    by simp
  note f = task_fields [OF r]
  have "\<not> implied_order ?obj"
    using Cons.prems(1) f(4) by simp
  moreover have "task_order ?obj < next_obj ?obj"
    using Cons.prems(2) f(3,5) by simp
  moreover have "\<forall>(u, r) \<in> set (dependencies ?obj). r \<noteq> task_order ?obj \<and> list_at ?obj r = []"
    using Cons.prems(1,2,3) by (rule task_plain_no_deps)
  moreover have "distinct (dict_keys (tasks ?obj))"
    using Cons.prems(4) by (simp add: task_plain_keys)
  ultimately have "(\<forall>u. \<not> truthy (deps_get (register_all fns ?obj) u)) \<and>
     distinct (dict_keys (tasks (register_all fns ?obj))) \<and>
     set (dict_keys (tasks (register_all fns ?obj))) = set (dict_keys (tasks ?obj)) \<union> set fns"
    by (rule Cons.IH)
  then show ?case
    by (auto simp: register_all_Cons task_plain_keys split: if_splits)
qed

lemma length_selected:
  "distinct (dict_keys (tasks obj)) \<Longrightarrow>
     length (selected obj requested) =
       card (set (dict_keys (tasks obj)) \<inter> set (effective obj requested))"
proof -
  assume d: "distinct (dict_keys (tasks obj))"
  let ?S = "set (effective obj requested)"
  have "length (selected obj requested) =
      length (filter (\<lambda>k. k \<in> ?S) (dict_keys (tasks obj)))"
    by (simp add: selected_effective [symmetric] dict_keys_def filter_map o_def case_prod_unfold)
  also from d have "\<dots> = card ({k. k \<in> ?S} \<inter> set (dict_keys (tasks obj)))"
    by (rule distinct_length_filter)
  finally show ?thesis by (simp add: Int_commute)
qed

lemma edges_adds: "edges (map Add_task ts @ [Flow_run]) = {}"
  by (simp add: edges_def)

text \<open>
  C3, as amended. After any number of registrations without \<^verbatim>\<open>depends\<close> and without
  implied order, \<^verbatim>\<open>run\<close> (with or without the flag) raises nothing, declares no edge and
  adds one task for each registered name that is requested: as many as there are
  registered names among the requested ones, which is all \<open>N\<close> of them when the \<open>N\<close>
  names are distinct and either no name or every name is requested.
\<close>

theorem plain_registrations_standalone:
  "obj = register_all fns (MakeCLI_init False) \<Longrightarrow>
     run obj requested nd = (None, map Add_task (selected obj requested) @ [Flow_run]) \<and>
     edges (snd (run obj requested nd)) = {} \<and>
     length (standalone (snd (run obj requested nd))) =
       card (set fns \<inter> set (effective obj requested)) \<and>
     (distinct fns \<and> (requested = [] \<or> set fns \<subseteq> set requested) \<longrightarrow>
        length (standalone (snd (run obj requested nd))) = length fns)"
proof -
  assume obj: "obj = register_all fns (MakeCLI_init False)"
  have "\<not> implied_order (MakeCLI_init False)"
    "task_order (MakeCLI_init False) < next_obj (MakeCLI_init False)"
    "\<forall>(u, r) \<in> set (dependencies (MakeCLI_init False)).
       r \<noteq> task_order (MakeCLI_init False) \<and> list_at (MakeCLI_init False) r = []"
    "distinct (dict_keys (tasks (MakeCLI_init False)))"
    by (simp_all add: MakeCLI_init_def dict_keys_def)
  from register_all_plain [OF this, of fns]
  have nd: "\<forall>u. \<not> truthy (deps_get obj u)"
    and di: "distinct (dict_keys (tasks obj))"
    and ks: "set (dict_keys (tasks obj)) = set fns"
    unfolding obj by (simp_all add: MakeCLI_init_def dict_keys_def)
  from nd have r: "run obj requested nd =
      (None, map Add_task (selected obj requested) @ [Flow_run])"
    by (intro run_leaves) simp
  have st: "standalone (map Add_task ts @ [Flow_run]) = ts" for ts
    by (induction ts) simp_all
  have n: "length (standalone (snd (run obj requested nd))) =
      card (set fns \<inter> set (effective obj requested))"
    using length_selected [OF di, of requested] by (simp add: r st ks)
  have "length (standalone (snd (run obj requested nd))) = length fns"
    if "distinct fns \<and> (requested = [] \<or> set fns \<subseteq> set requested)"
  proof -
    from that ks have "set fns \<inter> set (effective obj requested) = set fns"
      by (auto simp: effective_def)
    with n that show ?thesis by (simp add: distinct_card)
  qed
  with r n show ?thesis
    by (simp add: edges_adds)
qed

theorem plain_registrations_standalone_witness:
  "run (register_all [''a'', ''b''] (MakeCLI_init False)) [''b'', ''a''] False =
     (None, [Add_task 1, Add_task 3, Flow_run]) \<and>
   length (standalone (snd (run (register_all [''a'', ''b''] (MakeCLI_init False)) [''b'', ''a''] False))) = 2"
proof -
  let ?obj = "register_all [''a'', ''b''] (MakeCLI_init False)"
  have s: "selected ?obj [''b'', ''a''] = [1, 3]"
    by code_simp
  have d: "distinct [''a'', ''b''] \<and> ([''b'', ''a''] = [] \<or> set [''a'', ''b''] \<subseteq> set [''b'', ''a''])"
    by simp
  from plain_registrations_standalone [OF refl, of "[''a'', ''b'']" "[''b'', ''a'']" False] s d
  show ?thesis by simp
qed

text \<open>
  The count is not always the number of registrations: with \<open>a\<close> and \<open>b\<close> registered and
  \<open>a\<close> alone requested, one task is added.
\<close>

theorem plain_registrations_counterexample:
  "length (standalone (snd (run (register_all [''a'', ''b''] (MakeCLI_init False)) [''a''] False)))
     \<noteq> length [''a'', ''b'']"
  by code_simp

section \<open>Unresolved names in reach of a traversal\<close>





















end
